theory Spec2Isabelle
  imports Main "HOL-Library.AList" "HOL-Library.Log_Nat"
begin

section \<open>JavaScript values, objects and exceptions\<close>

text \<open>
  The WAMS sources are JavaScript. The values the shared utilities handle are modelled by
  \<open>jsval\<close>: the primitives, with numbers restricted to the integer-valued doubles (ids
  are counters), and opaque references to other objects. No value of the model is a
  function, and a referenced object is an ordinary one that inherits from
  \<open>Object.prototype\<close>.

  An object is its list of own properties in creation order, each a data property with
  the attributes \<open>writable\<close>, \<open>enumerable\<close> and \<open>configurable\<close>, the \<open>extensible\<close> flag
  of the object, and the constructors whose prototype lies on its prototype chain: what
  \<open>instanceof\<close> looks at, and \<open>Object\<close> is among them exactly when the object inherits
  the members of \<open>Object.prototype\<close>. Of those members the model carries the two the
  sources meet: the method \<open>hasOwnProperty\<close> and the accessor \<open>__proto__\<close>. The
  prototypes of the classes add only writable methods. Own accessor properties, symbol
  keys and the placing of integer-like keys first in the key order are outside the model.
\<close>

datatype jsval = Undefined | Null | Bool bool | Num int | Str string | Ref nat

datatype exn =
    TypeError            \<comment> \<open>a \<open>TypeError\<close> raised by the runtime or by \<open>new TypeError(...)\<close>\<close>
  | Thrown string        \<comment> \<open>\<open>throw\<close> of a plain string\<close>

record property =
  pvalue :: jsval
  writable :: bool
  enumerable :: bool
  configurable :: bool

record jsobj =
  props :: "(string \<times> property) list"
  extensible :: bool
  proto_chain :: "string list"

text \<open>The object literal \<open>{}\<close>.\<close>

definition empty_object :: jsobj where
  "empty_object = \<lparr>props = [], extensible = True, proto_chain = [''Object'']\<rparr>"

text \<open>
  The built-in \<open>Object.prototype.hasOwnProperty\<close> applied to \<open>obj\<close>, \<open>Object.keys(obj)\<close>
  (the own enumerable keys, each once) and the read \<open>obj[k]\<close> of a key that is own or
  that nothing on the prototype chain defines.
\<close>

definition hasOwnProperty :: "jsobj \<Rightarrow> string \<Rightarrow> bool" where
  "hasOwnProperty obj k = (map_of (props obj) k \<noteq> None)"

definition Object_keys :: "jsobj \<Rightarrow> string list" where
  "Object_keys obj =
     filter (\<lambda>k. case map_of (props obj) k of None \<Rightarrow> False | Some p \<Rightarrow> enumerable p)
       (remdups (map fst (props obj)))"

definition get :: "jsobj \<Rightarrow> string \<Rightarrow> jsval" where
  "get obj k = (case map_of (props obj) k of None \<Rightarrow> Undefined | Some p \<Rightarrow> pvalue p)"

definition inherits_Object :: "jsobj \<Rightarrow> bool" where
  "inherits_Object obj = (''Object'' \<in> set (proto_chain obj))"

text \<open>
  The method call \<open>obj.hasOwnProperty(k)\<close>. The method is looked up on \<open>obj\<close> itself: an
  own property of that name shadows the built-in, and as its value is not a function
  the call throws a \<open>TypeError\<close>; so does the call on an object that does not inherit
  from \<open>Object.prototype\<close>, where the lookup yields \<open>undefined\<close>.
\<close>

definition call_hasOwnProperty :: "jsobj \<Rightarrow> string \<Rightarrow> exn + bool" where
  "call_hasOwnProperty obj k =
     (if hasOwnProperty obj ''hasOwnProperty'' then Inl TypeError
      else if inherits_Object obj then Inr (hasOwnProperty obj k)
      else Inl TypeError)"

text \<open>
  \<open>SameValue\<close> and \<open>===\<close>. They differ only on \<open>NaN\<close> and the signed zeros, which are
  not among the modelled numbers.
\<close>

definition SameValue :: "jsval \<Rightarrow> jsval \<Rightarrow> bool" where
  "SameValue a b = (a = b)"

definition strict_equals :: "jsval \<Rightarrow> jsval \<Rightarrow> bool" where
  "strict_equals a b = (a = b)"

text \<open>
  \<open>Object.defineProperty(obj, k, {value, writable, enumerable, configurable})\<close> with a
  complete data descriptor, after the language's rule for validating a redefinition: a
  new key needs an extensible object; a configurable property takes the new descriptor;
  a non-configurable one cannot become configurable nor change its enumerability, and
  when it is also non-writable it cannot become writable nor change its value. A
  rejected definition throws a \<open>TypeError\<close> and leaves the object as it was. The
  definition looks at own properties only.
\<close>

definition defineProperty :: "jsobj \<Rightarrow> string \<Rightarrow> property \<Rightarrow> exn + jsobj" where
  "defineProperty obj k d =
     (case map_of (props obj) k of
        None \<Rightarrow>
          if extensible obj then Inr (obj\<lparr>props := props obj @ [(k, d)]\<rparr>)
          else Inl TypeError
      | Some cur \<Rightarrow>
          if configurable cur then Inr (obj\<lparr>props := AList.update k d (props obj)\<rparr>)
          else if configurable d then Inl TypeError
          else if enumerable d \<noteq> enumerable cur then Inl TypeError
          else if writable cur then Inr (obj\<lparr>props := AList.update k d (props obj)\<rparr>)
          else if writable d then Inl TypeError
          else if SameValue (pvalue d) (pvalue cur) then Inr obj
          else Inl TypeError)"

text \<open>
  The assignment \<open>obj[k] = v\<close>. A writable own property takes the value and a
  non-writable one rejects it. A key that is not own goes up the prototype chain: the
  key \<open>__proto__\<close> finds the accessor of \<open>Object.prototype\<close>, when the object inherits
  from it, and every other key finds nothing or a writable method, so that the key is
  created on an extensible object and rejected on another.

  The setter of \<open>__proto__\<close> creates no property. Given \<open>null\<close> or an object it replaces
  the prototype, and throws a \<open>TypeError\<close> of its own when the object is not extensible;
  given any other value it does nothing. After \<open>null\<close> the object inherits nothing; after
  a reference it inherits from the referenced object and, through it, from
  \<open>Object.prototype\<close> (what else the referenced object passes on is not followed).
\<close>

datatype set_outcome = Stored jsobj | Rejected | Raised exn

definition proto_setter :: "jsobj \<Rightarrow> jsval \<Rightarrow> set_outcome" where
  "proto_setter obj v =
     (case v of
        Null \<Rightarrow> if extensible obj then Stored (obj\<lparr>proto_chain := []\<rparr>) else Raised TypeError
      | Ref n \<Rightarrow>
          if extensible obj then Stored (obj\<lparr>proto_chain := [''Object'']\<rparr>)
          else Raised TypeError
      | _ \<Rightarrow> Stored obj)"

definition ordinary_set :: "jsobj \<Rightarrow> string \<Rightarrow> jsval \<Rightarrow> set_outcome" where
  "ordinary_set obj k v =
     (case map_of (props obj) k of
        Some cur \<Rightarrow>
          if writable cur
          then Stored (obj\<lparr>props := AList.update k (cur\<lparr>pvalue := v\<rparr>) (props obj)\<rparr>)
          else Rejected
      | None \<Rightarrow>
          if k = ''__proto__'' \<and> inherits_Object obj then proto_setter obj v
          else if extensible obj
          then Stored (obj\<lparr>props := props obj @
                 [(k, \<lparr>pvalue = v, writable = True, enumerable = True, configurable = True\<rparr>)]\<rparr>)
          else Rejected)"

text \<open>
  In strict code (class bodies are strict) a rejected assignment throws a \<open>TypeError\<close>;
  in sloppy code it is dropped. What a setter throws escapes in both.
\<close>

definition setProperty :: "jsobj \<Rightarrow> string \<Rightarrow> jsval \<Rightarrow> exn + jsobj" where
  "setProperty obj k v =
     (case ordinary_set obj k v of
        Stored obj' \<Rightarrow> Inr obj'
      | Rejected \<Rightarrow> Inl TypeError
      | Raised e \<Rightarrow> Inl e)"

definition setProperty_sloppy :: "jsobj \<Rightarrow> string \<Rightarrow> jsval \<Rightarrow> exn + jsobj" where
  "setProperty_sloppy obj k v =
     (case ordinary_set obj k v of
        Stored obj' \<Rightarrow> Inr obj'
      | Rejected \<Rightarrow> Inr obj
      | Raised e \<Rightarrow> Inl e)"

section \<open>Message: the typed envelope\<close>

text \<open>
  \<open>TYPES\<close> is the frozen table of message kinds and \<open>TYPE_VALUES\<close> its
  \<open>Object.values\<close>.
\<close>

definition TYPES :: "(string \<times> string) list" where
  "TYPES =
    [(''ADD_ELEMENT'', ''wams-add-element''),
     (''ADD_IMAGE'', ''wams-add-image''),
     (''ADD_ITEM'', ''wams-add-item''),
     (''ADD_SHADOW'', ''wams-add-shadow''),
     (''RM_ITEM'', ''wams-remove-item''),
     (''RM_SHADOW'', ''wams-remove-shadow''),
     (''UD_ITEM'', ''wams-update-item''),
     (''UD_SHADOW'', ''wams-update-shadow''),
     (''UD_VIEW'', ''wams-update-view''),
     (''RM_ATTRS'', ''wams-remove-attributes''),
     (''SET_ATTRS'', ''wams-set-attributes''),
     (''SET_IMAGE'', ''wams-set-image''),
     (''SET_RENDER'', ''wams-set-render''),
     (''INITIALIZE'', ''wams-initialize''),
     (''LAYOUT'', ''wams-layout''),
     (''FULL'', ''wams-full''),
     (''CLICK'', ''wams-click''),
     (''RESIZE'', ''wams-resize''),
     (''SWIPE'', ''wams-swipe''),
     (''TRACK'', ''wams-track''),
     (''TRANSFORM'', ''wams-transform''),
     (''POINTER'', ''wams-pointer''),
     (''BLUR'', ''wams-blur''),
     (''IMG_LOAD'', ''wams-image-loaded'')]"

definition TYPE_VALUES :: "string list" where
  "TYPE_VALUES = map snd TYPES"

text \<open>
  A message holds its type and its reporter. The reporter is whatever the caller passed:
  \<open>emitWith\<close> calls its \<open>report()\<close> method, which only some values have.
\<close>

datatype 'd reporter =
    Reporter 'd          \<comment> \<open>an object whose \<open>report()\<close> returns the snapshot\<close>
  | NoReport             \<comment> \<open>a value with no callable \<open>report\<close>\<close>

record 'd Message =
  msg_type :: string
  msg_reporter :: "'d reporter"

text \<open>\<open>new Message(type, reporter)\<close>.\<close>

definition Message_new :: "string \<Rightarrow> 'd reporter \<Rightarrow> exn + 'd Message" where
  "Message_new type reporter =
     (if type \<notin> set TYPE_VALUES then Inl TypeError
      else Inr \<lparr>msg_type = type, msg_reporter = reporter\<rparr>)"

text \<open>
  An emitter is the transport's channel; its \<open>emit(type, data)\<close> is modelled by the log
  of packets handed to it. \<open>report\<close> is the call \<open>reporter.report()\<close>.
\<close>

record 'd emitter =
  sent :: "(string \<times> 'd) list"

definition emit :: "'d emitter \<Rightarrow> string \<Rightarrow> 'd \<Rightarrow> 'd emitter" where
  "emit emitter type data = emitter\<lparr>sent := sent emitter @ [(type, data)]\<rparr>"

definition report :: "'d reporter \<Rightarrow> exn + 'd" where
  "report r = (case r of Reporter d \<Rightarrow> Inr d | NoReport \<Rightarrow> Inl TypeError)"

text \<open>
  \<open>emitWith(emitter)\<close>: the arguments are evaluated before the call, so a failing
  \<open>report()\<close> leaves the emitter untouched.
\<close>

definition emitWith :: "'d Message \<Rightarrow> 'd emitter \<Rightarrow> (exn + unit) \<times> 'd emitter" where
  "emitWith m emitter =
     (case report (msg_reporter m) of
        Inl e \<Rightarrow> (Inl e, emitter)
      | Inr data \<Rightarrow> (Inr (), emit emitter (msg_type m) data))"

section \<open>Utilities: initialize and removal by id\<close>

text \<open>
  \<open>initialize(defaults = {}, data = {})\<close>: an omitted (undefined) argument is \<open>None\<close>
  and takes the default \<open>{}\<close>. The function is sloppy code; the loop over
  \<open>Object.keys(defaults)\<close> calls \<open>data.hasOwnProperty(k)\<close> and then writes \<open>rv[k]\<close>, and
  ends at the first exception.
\<close>

fun initialize_each :: "string list \<Rightarrow> jsobj \<Rightarrow> jsobj \<Rightarrow> jsobj \<Rightarrow> exn + jsobj" where
  "initialize_each [] defaults data rv = Inr rv"
| "initialize_each (k # ks) defaults data rv =
     (case call_hasOwnProperty data k of
        Inl e \<Rightarrow> Inl e
      | Inr own \<Rightarrow>
          (case setProperty_sloppy rv k (if own then get data k else get defaults k) of
             Inl e \<Rightarrow> Inl e
           | Inr rv' \<Rightarrow> initialize_each ks defaults data rv'))"

definition initialize :: "jsobj option \<Rightarrow> jsobj option \<Rightarrow> exn + jsobj" where
  "initialize defaults_arg data_arg =
     (let defaults = (case defaults_arg of None \<Rightarrow> empty_object | Some d \<Rightarrow> d);
          data = (case data_arg of None \<Rightarrow> empty_object | Some d \<Rightarrow> d)
      in initialize_each (Object_keys defaults) defaults data empty_object)"

text \<open>
  \<open>Array.prototype.findIndex\<close> (the index of the first element that satisfies the
  callback, or \<open>-1\<close>) and \<open>array.splice(idx, 1)\<close>.
\<close>

fun findIndex :: "('a \<Rightarrow> bool) \<Rightarrow> 'a list \<Rightarrow> int" where
  "findIndex P [] = -1"
| "findIndex P (x # xs) =
     (if P x then 0 else (let i = findIndex P xs in if i < 0 then -1 else i + 1))"

definition splice1 :: "'a list \<Rightarrow> int \<Rightarrow> 'a list" where
  "splice1 array idx = take (nat idx) array @ drop (nat idx + 1) array"

text \<open>
  \<open>removeByID(array, item)\<close> mutates the array, whose elements are objects; the model
  returns the result and the array after the call. An object without an \<open>id\<close> reads as
  \<open>undefined\<close>.
\<close>

definition removeByID :: "jsobj list \<Rightarrow> jsobj \<Rightarrow> bool \<times> jsobj list" where
  "removeByID array item =
     (let idx = findIndex (\<lambda>obj. strict_equals (get obj ''id'') (get item ''id'')) array
      in if idx \<ge> 0 then (True, splice1 array idx) else (False, array))"

text \<open>
  \<open>item instanceof class_fn\<close>: a class is named by the string it converts to, which is
  also what the thrown message interpolates.
\<close>

definition instanceof :: "jsobj \<Rightarrow> string \<Rightarrow> bool" where
  "instanceof item class_fn = (class_fn \<in> set (proto_chain item))"

definition safeRemoveByID ::
  "jsobj list \<Rightarrow> jsobj \<Rightarrow> string \<Rightarrow> (exn + bool) \<times> jsobj list" where
  "safeRemoveByID array item class_fn =
     (if \<not> instanceof item class_fn
      then (Inl (Thrown (''Invalid '' @ class_fn @ '' received.'')), array)
      else (let (r, array') = removeByID array item in (Inr r, array')))"

section \<open>IDStamper\<close>

text \<open>
  The counter is a double. On the non-negative integers a double holds every value below
  \<open>2 ^ 53\<close> and, above, the multiples of the power of two that leaves 53 significant
  bits; a sum is rounded to the nearest such value, ties to the even significand (the
  overflow to infinity near \<open>2 ^ 1024\<close> is far from anything the counter reaches).
\<close>

definition round_double :: "nat \<Rightarrow> nat" where
  "round_double n =
     (if n < 2 ^ 53 then n
      else (let e = floorlog 2 n - 53; q = n div 2 ^ e; r = n mod 2 ^ e; h = 2 ^ (e - 1)
            in if r < h \<or> (r = h \<and> even q) then q * 2 ^ e else (q + 1) * 2 ^ e))"

definition willNotOverflow :: "nat \<Rightarrow> bool" where
  "willNotOverflow x = (round_double (x + 1) > x)"

text \<open>
  The generator \<open>id_gen\<close>: suspended with the value of \<open>next_id\<close> (0 before the first
  \<open>next()\<close>), or completed once the loop has ended. \<open>gen_next\<close> is \<open>next().value\<close>: the
  pre-incremented counter, or \<open>undefined\<close> from a generator that has returned.
\<close>

datatype generator = Suspended nat | Completed

definition id_gen :: generator where
  "id_gen = Suspended 0"

fun gen_next :: "generator \<Rightarrow> jsval \<times> generator" where
  "gen_next (Suspended next_id) =
     (if willNotOverflow next_id
      then (let next_id' = round_double (next_id + 1)
            in (Num (int next_id'), Suspended next_id'))
      else (Undefined, Completed))"
| "gen_next Completed = (Undefined, Completed)"

record IDStamper =
  gen :: generator

definition IDStamper_new :: IDStamper where
  "IDStamper_new = \<lparr>gen = id_gen\<rparr>"

text \<open>
  \<open>stamp(obj, id)\<close>, with \<open>Undefined\<close> for an omitted id. The value is computed (and the
  generator advanced) before \<open>Object.defineProperty\<close> runs; the result is \<open>obj.id\<close>.
  The model returns the outcome, the object and the stamper after the call.
\<close>

definition stamp ::
  "IDStamper \<Rightarrow> jsobj \<Rightarrow> jsval \<Rightarrow> (exn + jsval) \<times> jsobj \<times> IDStamper" where
  "stamp this obj id_arg =
     (let (v, this') =
            (if id_arg = Undefined
             then (let (v, g) = gen_next (gen this) in (v, this\<lparr>gen := g\<rparr>))
             else (id_arg, this))
      in case defineProperty obj ''id'' \<lparr>pvalue = v, writable = False, enumerable = True, configurable = False\<rparr> of
           Inl e \<Rightarrow> (Inl e, obj, this')
         | Inr obj' \<Rightarrow> (Inr (get obj' ''id''), obj', this'))"

text \<open>
  A run of calls on one stamper, each with the object and the id it is given (the objects
  are arbitrary, so any sharing between calls is covered): the outcomes in call order.
\<close>

fun stamp_all :: "IDStamper \<Rightarrow> (jsobj \<times> jsval) list \<Rightarrow> (exn + jsval) list" where
  "stamp_all this [] = []"
| "stamp_all this ((obj, id_arg) # calls) =
     (let (r, obj', this') = stamp this obj id_arg in r # stamp_all this' calls)"

section \<open>Reporter classes\<close>

text \<open>
  \<open>reporterClassFactory(_coreProperties)\<close> builds the frozen-valued \<open>defaults\<close> and the
  class; a class is its field list and its defaults.
\<close>

record reporter_class =
  coreProperties :: "string list"
  defaults :: jsobj

fun define_defaults :: "string list \<Rightarrow> jsobj \<Rightarrow> exn + jsobj" where
  "define_defaults [] d = Inr d"
| "define_defaults (p # ps) d =
     (case defineProperty d p \<lparr>pvalue = Null, writable = False, enumerable = True, configurable = False\<rparr> of
        Inl e \<Rightarrow> Inl e
      | Inr d' \<Rightarrow> define_defaults ps d')"

definition reporterClassFactory :: "string list \<Rightarrow> exn + reporter_class" where
  "reporterClassFactory ps =
     (case define_defaults ps empty_object of
        Inl e \<Rightarrow> Inl e
      | Inr d \<Rightarrow> Inr \<lparr>coreProperties = ps, defaults = d\<rparr>)"

text \<open>
  \<open>assign(data)\<close>: the loop over the declared fields, in strict code; each round calls
  \<open>data.hasOwnProperty(p)\<close>. The model returns the exception, if one was thrown, and the
  instance as the call left it.
\<close>

fun assign_fields :: "string list \<Rightarrow> jsobj \<Rightarrow> jsobj \<Rightarrow> exn option \<times> jsobj" where
  "assign_fields [] this data = (None, this)"
| "assign_fields (p # ps) this data =
     (case call_hasOwnProperty data p of
        Inl e \<Rightarrow> (Some e, this)
      | Inr own \<Rightarrow>
          if own
          then (case setProperty this p (get data p) of
                  Inl e \<Rightarrow> (Some e, this)
                | Inr this' \<Rightarrow> assign_fields ps this' data)
          else assign_fields ps this data)"

definition assign :: "reporter_class \<Rightarrow> jsobj \<Rightarrow> jsobj \<Rightarrow> exn option \<times> jsobj" where
  "assign cls this data = assign_fields (coreProperties cls) this data"

text \<open>
  \<open>new Reporter(data)\<close>: a fresh instance, assigned the initialized data; an exception
  of \<open>initialize\<close> leaves the instance empty.
\<close>

definition Reporter_new :: "reporter_class \<Rightarrow> jsobj option \<Rightarrow> exn option \<times> jsobj" where
  "Reporter_new cls data =
     (let this = \<lparr>props = [], extensible = True, proto_chain = [''Reporter'', ''Object'']\<rparr>
      in case initialize (Some (defaults cls)) data of
           Inl e \<Rightarrow> (Some e, this)
         | Inr values \<Rightarrow> assign cls this values)"

section \<open>Publishable: deferred publication\<close>

text \<open>
  The state a publication touches: each entity's \<open>scheduled\<close> flag (undefined counts as
  false), the queue of callbacks handed to \<open>setImmediate\<close> (each is \<open>emit\<close> bound to an
  entity), and the log of calls to \<open>emitPublication\<close>. What an entity's own
  \<open>emitPublication\<close> does to this state is the list of \<open>publish()\<close> calls it makes;
  \<open>None\<close> is the mixin's default, which throws.
\<close>

type_synonym entity = nat

datatype action = Publish entity

record event_loop =
  scheduled :: "entity \<Rightarrow> bool"
  immediates :: "entity list"
  emitted :: "entity list"

definition publish :: "entity \<Rightarrow> event_loop \<Rightarrow> event_loop" where
  "publish e s =
     (if \<not> scheduled s e
      then s\<lparr>scheduled := (scheduled s)(e := True), immediates := immediates s @ [e]\<rparr>
      else s)"

fun perform :: "event_loop \<Rightarrow> action \<Rightarrow> event_loop" where
  "perform s (Publish e) = publish e s"

definition emitPublication ::
  "(entity \<Rightarrow> action list option) \<Rightarrow> entity \<Rightarrow> event_loop \<Rightarrow> exn option \<times> event_loop" where
  "emitPublication impl e s =
     (let s' = s\<lparr>emitted := emitted s @ [e]\<rparr>
      in case impl e of
           None \<Rightarrow>
             (Some (Thrown ''Classes using Publishable mixin must implement emitPublication()''), s')
         | Some acts \<Rightarrow> (None, foldl perform s' acts))"

text \<open>The method \<open>[symbols.emit]()\<close>.\<close>

definition symbols_emit ::
  "(entity \<Rightarrow> action list option) \<Rightarrow> entity \<Rightarrow> event_loop \<Rightarrow> exn option \<times> event_loop" where
  "symbols_emit impl e s =
     emitPublication impl e (s\<lparr>scheduled := (scheduled s)(e := False)\<rparr>)"

text \<open>
  The event loop's immediate phase: the callbacks queued so far run in order, and a
  callback queued meanwhile waits for the next phase. An exception that escapes a
  callback is uncaught and ends the run.
\<close>

fun run_immediates ::
  "(entity \<Rightarrow> action list option) \<Rightarrow> entity list \<Rightarrow> event_loop \<Rightarrow> exn option \<times> event_loop" where
  "run_immediates impl [] s = (None, s)"
| "run_immediates impl (e # queue) s =
     (case symbols_emit impl e s of
        (Some x, s') \<Rightarrow> (Some x, s')
      | (None, s') \<Rightarrow> run_immediates impl queue s')"

definition process_immediates ::
  "(entity \<Rightarrow> action list option) \<Rightarrow> event_loop \<Rightarrow> exn option \<times> event_loop" where
  "process_immediates impl s = run_immediates impl (immediates s) (s\<lparr>immediates := []\<rparr>)"

section \<open>Predicates and sample objects for the properties\<close>

text \<open>
  The object \<open>JSON.parse\<close> builds from the given entries (every key an own property,
  \<open>__proto__\<close> too), and an object that carries only a stamped id.
\<close>

definition json_object :: "(string \<times> jsval) list \<Rightarrow> jsobj" where
  "json_object kvs =
     \<lparr>props = map (\<lambda>(k, v).
          (k, \<lparr>pvalue = v, writable = True, enumerable = True, configurable = True\<rparr>)) kvs,
      extensible = True, proto_chain = [''Object'']\<rparr>"

definition stamped_object :: "jsval \<Rightarrow> string list \<Rightarrow> jsobj" where
  "stamped_object v chain =
     \<lparr>props = [(''id'', \<lparr>pvalue = v, writable = False, enumerable = True, configurable = False\<rparr>)],
      extensible = True, proto_chain = chain\<rparr>"

text \<open>
  A plain object is extensible with every property writable, enumerable and
  configurable, as \<open>initialize\<close> builds it. An object has the method \<open>hasOwnProperty\<close>
  when it inherits the built-in and does not shadow it. An instance is assignable on a
  field list when a strict write to each of the fields would store the value: the field
  is writable, or it is missing, the instance is extensible and the key is not one that
  goes to the \<open>__proto__\<close> accessor. The defaults of a reporter class hold only frozen
  nulls.
\<close>

definition plain_object :: "jsobj \<Rightarrow> bool" where
  "plain_object obj =
     (extensible obj \<and>
      list_all (\<lambda>(k, p). writable p \<and> enumerable p \<and> configurable p) (props obj))"

definition has_hasOwnProperty :: "jsobj \<Rightarrow> bool" where
  "has_hasOwnProperty obj = (inherits_Object obj \<and> \<not> hasOwnProperty obj ''hasOwnProperty'')"

definition assignable :: "string list \<Rightarrow> jsobj \<Rightarrow> bool" where
  "assignable ps this =
     list_all (\<lambda>p. case map_of (props this) p of
                      None \<Rightarrow> extensible this \<and> \<not> (p = ''__proto__'' \<and> inherits_Object this)
                    | Some cur \<Rightarrow> writable cur) ps"

definition default_valued :: "jsobj \<Rightarrow> bool" where
  "default_valued d =
     (extensible d \<and>
      list_all (\<lambda>(k, p). p = \<lparr>pvalue = Null, writable = False, enumerable = True,
                               configurable = False\<rparr>) (props d))"

text \<open>
  The event loop before anything was published, and the invariant that ties the flags to
  the callbacks still to run (those of the phase under way and those queued for the
  next): an entity has one callback when its flag is set and none otherwise.
\<close>

definition initial_loop :: event_loop where
  "initial_loop = \<lparr>scheduled = (\<lambda>e. False), immediates = [], emitted = []\<rparr>"

definition pending :: "entity list \<Rightarrow> event_loop \<Rightarrow> bool" where
  "pending queue s =
     (\<forall>e. count_list queue e + count_list (immediates s) e = (if scheduled s e then 1 else 0))"

section \<open>Properties of Message\<close>

lemma TYPE_VALUES_length: "length TYPE_VALUES = 24"
  by (simp add: TYPE_VALUES_def TYPES_def)

lemma TYPE_VALUES_distinct: "distinct TYPE_VALUES"
  by (simp add: TYPE_VALUES_def TYPES_def)

text \<open>
  C1. Constructing a message from a string throws a \<open>TypeError\<close> exactly when the string
  is not one of the 24 (distinct) values of \<open>TYPES\<close>; otherwise the message is built and
  its type is that string.
\<close>

theorem Message_new_valid_iff:
  "(Message_new s r = Inl TypeError) = (s \<notin> set TYPE_VALUES)
   \<and> (\<exists>m. Message_new s r = Inr m) = (s \<in> set TYPE_VALUES)
   \<and> Message_new s r =
       (if s \<in> set TYPE_VALUES then Inr \<lparr>msg_type = s, msg_reporter = r\<rparr> else Inl TypeError)
   \<and> card (set TYPE_VALUES) = 24"
  using TYPE_VALUES_length distinct_card [OF TYPE_VALUES_distinct]
  by (simp add: Message_new_def)

text \<open>
  C8. For a valid kind \<open>k\<close>, a message built on a reporter whose \<open>report()\<close> returns
  \<open>d\<close> hands the emitter exactly one packet, \<open>(k, d)\<close>; on a value without \<open>report()\<close>
  the message is still built, and it is \<open>emitWith\<close> that throws, leaving the emitter
  untouched.
\<close>

theorem emitWith_emits_once:
  assumes "k \<in> set TYPE_VALUES"
  shows "(\<exists>m. Message_new k (Reporter d) = Inr m \<and> msg_type m = k \<and>
            emitWith m ch = (Inr (), ch\<lparr>sent := sent ch @ [(k, d)]\<rparr>))
       \<and> (\<exists>m. Message_new k NoReport = Inr m \<and> msg_type m = k \<and>
            emitWith m ch = (Inl TypeError, ch))"
  using assms by (simp add: Message_new_def emitWith_def report_def emit_def)

theorem emitWith_emits_once_witness:
  "''wams-click'' \<in> set TYPE_VALUES
   \<and> (\<exists>m. Message_new ''wams-click'' (Reporter (Num 5)) = Inr m \<and> msg_type m = ''wams-click'' \<and>
          emitWith m \<lparr>sent = []\<rparr> = (Inr (), \<lparr>sent = [(''wams-click'', Num 5)]\<rparr>))
   \<and> (\<exists>m. Message_new ''wams-click'' (NoReport :: jsval reporter) = Inr m \<and>
          emitWith m \<lparr>sent = []\<rparr> = (Inl TypeError, \<lparr>sent = []\<rparr>))"
proof -
  have k: "''wams-click'' \<in> set TYPE_VALUES" by (simp add: TYPE_VALUES_def TYPES_def)
  show ?thesis
    using k emitWith_emits_once [OF k, of "Num 5" "\<lparr>sent = []\<rparr>"] by auto
qed

section \<open>Properties of the utilities\<close>

subsection \<open>Removal by id\<close>

lemma findIndex_none: "(\<forall>x\<in>set xs. \<not> P x) \<Longrightarrow> findIndex P xs = -1"
  by (induction xs) auto

lemma findIndex_first:
  "(\<forall>x\<in>set pre. \<not> P x) \<Longrightarrow> P x \<Longrightarrow> findIndex P (pre @ x # post) = int (length pre)"
  by (induction pre) (auto simp: Let_def)

lemma splice1_first: "splice1 (pre @ x # post) (int (length pre)) = pre @ post"
  by (simp add: splice1_def)

text \<open>
  C10. \<open>safeRemoveByID\<close> throws and leaves the array as it is when the item is not an
  instance of the class. Otherwise, when no element's id is \<open>===\<close> the item's, it returns
  false and leaves the array as it is; and when \<open>x\<close> is the first element whose id is, it
  returns true and the array loses exactly that element.
\<close>

theorem safeRemoveByID_spec:
  "(\<not> instanceof item C \<longrightarrow>
      safeRemoveByID array item C = (Inl (Thrown (''Invalid '' @ C @ '' received.'')), array))
   \<and> (instanceof item C \<and>
        (\<forall>obj\<in>set array. \<not> strict_equals (get obj ''id'') (get item ''id'')) \<longrightarrow>
      safeRemoveByID array item C = (Inr False, array))
   \<and> (instanceof item C \<and> array = pre @ x # post \<and>
        (\<forall>obj\<in>set pre. \<not> strict_equals (get obj ''id'') (get item ''id'')) \<and>
        strict_equals (get x ''id'') (get item ''id'') \<longrightarrow>
      safeRemoveByID array item C = (Inr True, pre @ post))"
  by (auto simp: safeRemoveByID_def removeByID_def Let_def findIndex_none findIndex_first
      splice1_first)

theorem safeRemoveByID_spec_witness:
  "\<not> instanceof (stamped_object (Num 2) [''View'', ''Object'']) ''Item''
   \<and> safeRemoveByID [stamped_object (Num 1) [''Item'', ''Object'']]
        (stamped_object (Num 2) [''View'', ''Object'']) ''Item''
      = (Inl (Thrown ''Invalid Item received.''), [stamped_object (Num 1) [''Item'', ''Object'']])
   \<and> instanceof (stamped_object (Num 2) [''Item'', ''Object'']) ''Item''
   \<and> safeRemoveByID [stamped_object (Num 1) [''Item'', ''Object'']]
        (stamped_object (Num 2) [''Item'', ''Object'']) ''Item''
      = (Inr False, [stamped_object (Num 1) [''Item'', ''Object'']])
   \<and> safeRemoveByID
        [stamped_object (Num 1) [''Item'', ''Object''],
         stamped_object (Num 2) [''Item'', ''Object''],
         stamped_object (Num 2) [''Other'']]
        (stamped_object (Num 2) [''Item'', ''Object'']) ''Item''
      = (Inr True, [stamped_object (Num 1) [''Item'', ''Object''],
                    stamped_object (Num 2) [''Other'']])"
  using safeRemoveByID_spec [of "stamped_object (Num 2) [''View'', ''Object'']" "''Item''"
          "[stamped_object (Num 1) [''Item'', ''Object'']]" "[]" "empty_object" "[]"]
        safeRemoveByID_spec [of "stamped_object (Num 2) [''Item'', ''Object'']" "''Item''"
          "[stamped_object (Num 1) [''Item'', ''Object'']]" "[]" "empty_object" "[]"]
        safeRemoveByID_spec [of "stamped_object (Num 2) [''Item'', ''Object'']" "''Item''"
          "[stamped_object (Num 1) [''Item'', ''Object''],
            stamped_object (Num 2) [''Item'', ''Object''],
            stamped_object (Num 2) [''Other'']]"
          "[stamped_object (Num 1) [''Item'', ''Object'']]"
          "stamped_object (Num 2) [''Item'', ''Object'']"
          "[stamped_object (Num 2) [''Other'']]"]
  by (simp add: instanceof_def stamped_object_def get_def strict_equals_def)

subsection \<open>initialize\<close>

lemma call_hasOwnProperty_ok:
  "has_hasOwnProperty x \<Longrightarrow> call_hasOwnProperty x k = Inr (hasOwnProperty x k)"
  by (simp add: has_hasOwnProperty_def call_hasOwnProperty_def)

lemma call_hasOwnProperty_throws:
  "\<not> has_hasOwnProperty x \<Longrightarrow> call_hasOwnProperty x k = Inl TypeError"
  by (simp add: has_hasOwnProperty_def call_hasOwnProperty_def)

lemma Object_keys_iff:
  "(k \<in> set (Object_keys obj)) = (\<exists>p. map_of (props obj) k = Some p \<and> enumerable p)"
proof -
  have "(k \<in> fst ` set (props obj)) = (map_of (props obj) k \<noteq> None)"
    by (simp add: map_of_eq_None_iff)
  then show ?thesis by (auto simp: Object_keys_def split: option.splits)
qed

lemma Object_keys_distinct: "distinct (Object_keys obj)"
  by (simp add: Object_keys_def)

lemma plain_object_lookup:
  "plain_object obj \<Longrightarrow> map_of (props obj) k = Some p \<Longrightarrow>
   writable p \<and> enumerable p \<and> configurable p"
  by (auto simp: plain_object_def list_all_iff dest!: map_of_SomeD)


lemma set_update_subset: "set (AList.update k v al) \<subseteq> insert (k, v) (set al)"
  by (induction al) auto

lemma ordinary_set_plain:
  assumes "plain_object obj" and "k \<noteq> ''__proto__''"
  shows "\<exists>obj'. ordinary_set obj k v = Stored obj' \<and> plain_object obj' \<and>
           proto_chain obj' = proto_chain obj \<and>
           map_of (props obj') =
             (map_of (props obj))(k \<mapsto>
                \<lparr>pvalue = v, writable = True, enumerable = True, configurable = True\<rparr>)"
proof (cases "map_of (props obj) k")
  case None
  with assms show ?thesis
    by (auto simp: ordinary_set_def plain_object_def map_add_def fun_eq_iff split: option.splits)
next
  case (Some cur)
  with assms have wc: "writable cur" "enumerable cur" "configurable cur"
    using plain_object_lookup by blast+
  then have eq: "cur\<lparr>pvalue := v\<rparr> =
      \<lparr>pvalue = v, writable = True, enumerable = True, configurable = True\<rparr>"
    by simp
  have "plain_object (obj\<lparr>props := AList.update k (cur\<lparr>pvalue := v\<rparr>) (props obj)\<rparr>)"
    using assms set_update_subset [of k "cur\<lparr>pvalue := v\<rparr>" "props obj"] wc
    by (auto simp: plain_object_def list_all_iff)
  with Some wc show ?thesis
    by (simp add: ordinary_set_def update_conv' eq)
qed

lemma ordinary_set_proto:
  assumes "plain_object obj" and "inherits_Object obj"
    and "map_of (props obj) ''__proto__'' = None"
  shows "\<exists>obj'. ordinary_set obj ''__proto__'' v = Stored obj' \<and> plain_object obj' \<and>
           props obj' = props obj"
  using assms
  by (cases v) (auto simp: ordinary_set_def proto_setter_def plain_object_def)

lemma initialize_each_props:
  assumes "has_hasOwnProperty x"
  shows "plain_object rv \<Longrightarrow> distinct ks \<Longrightarrow> map_of (props rv) ''__proto__'' = None \<Longrightarrow>
    (''__proto__'' \<in> set ks \<longrightarrow> inherits_Object rv) \<Longrightarrow>
    \<exists>r. initialize_each ks d x rv = Inr r \<and> plain_object r \<and>
      (''__proto__'' \<notin> set ks \<longrightarrow> proto_chain r = proto_chain rv) \<and>
      map_of (props r) =
        (\<lambda>k. if k \<in> set ks \<and> k \<noteq> ''__proto__''
             then Some \<lparr>pvalue = (if hasOwnProperty x k then get x k else get d k),
                        writable = True, enumerable = True, configurable = True\<rparr>
             else map_of (props rv) k)"
proof (induction ks arbitrary: rv)
  case Nil
  then show ?case by simp
next
  case (Cons a ks)
  let ?v = "if hasOwnProperty x a then get x a else get d a"
  have call: "call_hasOwnProperty x a = Inr (hasOwnProperty x a)"
    by (rule call_hasOwnProperty_ok [OF assms])
  from Cons.prems(2) have d: "distinct ks" and na: "a \<notin> set ks" by simp_all
  show ?case
  proof (cases "a = ''__proto__''")
    case True
    with Cons.prems have inh: "inherits_Object rv" by simp
    from ordinary_set_proto [OF Cons.prems(1) inh Cons.prems(3), of ?v] obtain rv' where
      s: "ordinary_set rv ''__proto__'' ?v = Stored rv'" and p: "plain_object rv'"
      and e: "props rv' = props rv" by blast
    have m: "map_of (props rv') ''__proto__'' = None" using e Cons.prems(3) by simp
    have i: "''__proto__'' \<in> set ks \<longrightarrow> inherits_Object rv'" using na True by simp
    from Cons.IH [OF p d m i] obtain r where
      r: "initialize_each ks d x rv' = Inr r" "plain_object r"
      "map_of (props r) =
        (\<lambda>k. if k \<in> set ks \<and> k \<noteq> ''__proto__''
             then Some \<lparr>pvalue = (if hasOwnProperty x k then get x k else get d k),
                        writable = True, enumerable = True, configurable = True\<rparr>
             else map_of (props rv') k)"
      by blast
    from s True have step: "setProperty_sloppy rv a ?v = Inr rv'"
      by (simp add: setProperty_sloppy_def)
    from r step call True show ?thesis
      by (auto simp: e fun_eq_iff)
  next
    case False
    from ordinary_set_plain [OF Cons.prems(1) False, of ?v] obtain rv' where
      s: "ordinary_set rv a ?v = Stored rv'" and p: "plain_object rv'"
      and c: "proto_chain rv' = proto_chain rv"
      and e: "map_of (props rv') = (map_of (props rv))(a \<mapsto>
          \<lparr>pvalue = ?v, writable = True, enumerable = True, configurable = True\<rparr>)"
      by blast
    have m: "map_of (props rv') ''__proto__'' = None" using e False Cons.prems(3) by simp
    have i: "''__proto__'' \<in> set ks \<longrightarrow> inherits_Object rv'"
      using Cons.prems(4) c by (simp add: inherits_Object_def)
    from Cons.IH [OF p d m i] obtain r where
      r: "initialize_each ks d x rv' = Inr r" "plain_object r"
      "''__proto__'' \<notin> set ks \<longrightarrow> proto_chain r = proto_chain rv'"
      "map_of (props r) =
        (\<lambda>k. if k \<in> set ks \<and> k \<noteq> ''__proto__''
             then Some \<lparr>pvalue = (if hasOwnProperty x k then get x k else get d k),
                        writable = True, enumerable = True, configurable = True\<rparr>
             else map_of (props rv') k)"
      by blast
    from s have step: "setProperty_sloppy rv a ?v = Inr rv'"
      by (simp add: setProperty_sloppy_def)
    from r step call False na c show ?thesis
      by (auto simp: e fun_eq_iff)
  qed
qed

lemma plain_empty_object: "plain_object empty_object"
  by (simp add: plain_object_def empty_object_def)

lemma initialize_props:
  assumes "has_hasOwnProperty x"
  shows "\<exists>r. initialize (Some d) (Some x) = Inr r \<and> plain_object r \<and>
      (''__proto__'' \<notin> set (Object_keys d) \<longrightarrow> proto_chain r = [''Object'']) \<and>
      map_of (props r) =
        (\<lambda>k. if k \<in> set (Object_keys d) \<and> k \<noteq> ''__proto__''
             then Some \<lparr>pvalue = (if hasOwnProperty x k then get x k else get d k),
                        writable = True, enumerable = True, configurable = True\<rparr>
             else None)"
proof -
  have m: "map_of (props empty_object) ''__proto__'' = None" by (simp add: empty_object_def)
  have i: "''__proto__'' \<in> set (Object_keys d) \<longrightarrow> inherits_Object empty_object"
    by (simp add: inherits_Object_def empty_object_def)
  note t = initialize_each_props [OF assms plain_empty_object Object_keys_distinct m i, where d = d]
  have e: "map_of (props empty_object) k = None" for k by (simp add: empty_object_def)
  have c: "proto_chain empty_object = [''Object'']" by (simp add: empty_object_def)
  show ?thesis
    using t by (simp add: initialize_def e c cong: if_cong)
qed





section \<open>Properties of Reporter classes\<close>

lemma setProperty_other:
  "setProperty this p v = Inr this' \<Longrightarrow> k \<noteq> p \<Longrightarrow>
   map_of (props this') k = map_of (props this) k"
  by (auto simp: setProperty_def ordinary_set_def proto_setter_def update_conv' map_add_def
      split: option.splits if_splits set_outcome.splits jsval.splits)

lemma setProperty_assignable:
  assumes "case map_of (props this) p of
             None \<Rightarrow> extensible this \<and> \<not> (p = ''__proto__'' \<and> inherits_Object this)
           | Some cur \<Rightarrow> writable cur"
  shows "\<exists>this'. setProperty this p v = Inr this' \<and> extensible this' = extensible this \<and>
           proto_chain this' = proto_chain this \<and>
           (\<exists>cur. map_of (props this') p = Some cur \<and> pvalue cur = v \<and> writable cur)"
proof (cases "map_of (props this) p")
  case None
  with assms show ?thesis
    by (auto simp: setProperty_def ordinary_set_def map_add_def)
next
  case (Some cur)
  with assms show ?thesis
    by (simp add: setProperty_def ordinary_set_def update_conv')
qed

lemma assign_fields_throws:
  "\<not> has_hasOwnProperty data \<Longrightarrow> ps \<noteq> [] \<Longrightarrow>
   assign_fields ps this data = (Some TypeError, this)"
  by (cases ps) (simp_all add: call_hasOwnProperty_throws)

lemma assign_fields_frame:
  "k \<notin> set ps \<Longrightarrow>
   map_of (props (snd (assign_fields ps this data))) k = map_of (props this) k"
proof (induction ps arbitrary: this)
  case Nil
  then show ?case by simp
next
  case (Cons p ps)
  then show ?case
    by (auto simp: setProperty_other split: sum.splits)
qed

lemma assignable_step:
  assumes "assignable ps this" and "setProperty this p v = Inr this'"
    and "extensible this' = extensible this" and "proto_chain this' = proto_chain this"
    and "\<exists>cur. map_of (props this') p = Some cur \<and> pvalue cur = v \<and> writable cur"
  shows "assignable ps this'"
  unfolding assignable_def list_all_iff
proof
  fix q assume q: "q \<in> set ps"
  show "case map_of (props this') q of
          None \<Rightarrow> extensible this' \<and> \<not> (q = ''__proto__'' \<and> inherits_Object this')
        | Some cur \<Rightarrow> writable cur"
  proof (cases "q = p")
    case True
    with assms(5) show ?thesis by auto
  next
    case False
    from assms(1) q
    have "case map_of (props this) q of
            None \<Rightarrow> extensible this \<and> \<not> (q = ''__proto__'' \<and> inherits_Object this)
          | Some cur \<Rightarrow> writable cur"
      by (simp add: assignable_def list_all_iff)
    with False setProperty_other [OF assms(2), of q] assms(3,4)
    show ?thesis by (simp add: inherits_Object_def split: option.splits)
  qed
qed

lemma assign_fields_ok:
  assumes "has_hasOwnProperty data"
  shows "assignable ps this \<Longrightarrow>
   fst (assign_fields ps this data) = None \<and>
   (\<forall>k. get (snd (assign_fields ps this data)) k =
      (if k \<in> set ps \<and> hasOwnProperty data k then get data k else get this k)) \<and>
   (\<forall>k. hasOwnProperty (snd (assign_fields ps this data)) k =
      (hasOwnProperty this k \<or> k \<in> set ps \<and> hasOwnProperty data k))"
proof (induction ps arbitrary: this)
  case Nil
  then show ?case by simp
next
  case (Cons p ps)
  have call: "call_hasOwnProperty data p = Inr (hasOwnProperty data p)"
    by (rule call_hasOwnProperty_ok [OF assms])
  from Cons.prems have hd: "case map_of (props this) p of
             None \<Rightarrow> extensible this \<and> \<not> (p = ''__proto__'' \<and> inherits_Object this)
           | Some cur \<Rightarrow> writable cur"
    and tl: "assignable ps this" by (simp_all add: assignable_def)
  show ?case
  proof (cases "hasOwnProperty data p")
    case False
    with Cons.IH [OF tl] call show ?thesis by auto
  next
    case True
    from setProperty_assignable [OF hd, of "get data p"] obtain this' where
      s: "setProperty this p (get data p) = Inr this'"
      and e: "extensible this' = extensible this" and c: "proto_chain this' = proto_chain this"
      and w: "\<exists>cur. map_of (props this') p = Some cur \<and> pvalue cur = get data p \<and> writable cur"
      by blast
    have a: "assignable ps this'" by (rule assignable_step [OF tl s e c w])
    have g: "\<And>k. get this' k = (if k = p then get data p else get this k)"
      using w setProperty_other [OF s] by (auto simp: get_def)
    have h: "hasOwnProperty this' k = (hasOwnProperty this k \<or> k = p)" for k
    proof (cases "k = p")
      case True
      with w show ?thesis by (auto simp: hasOwnProperty_def)
    next
      case False
      with setProperty_other [OF s, of k] show ?thesis by (simp add: hasOwnProperty_def)
    qed
    from Cons.IH [OF a] True s call show ?thesis
      by (auto simp: g h)
  qed
qed

lemma assign_fields_assignable:
  assumes "has_hasOwnProperty data"
  shows "assignable ps this \<Longrightarrow> assignable qs this \<Longrightarrow>
   assignable qs (snd (assign_fields ps this data))"
proof (induction ps arbitrary: this)
  case Nil
  then show ?case by simp
next
  case (Cons p ps)
  have call: "call_hasOwnProperty data p = Inr (hasOwnProperty data p)"
    by (rule call_hasOwnProperty_ok [OF assms])
  from Cons.prems(1) have hd: "case map_of (props this) p of
             None \<Rightarrow> extensible this \<and> \<not> (p = ''__proto__'' \<and> inherits_Object this)
           | Some cur \<Rightarrow> writable cur"
    and tl: "assignable ps this" by (simp_all add: assignable_def)
  show ?case
  proof (cases "hasOwnProperty data p")
    case False
    with Cons.IH [OF tl Cons.prems(2)] call show ?thesis by simp
  next
    case True
    from setProperty_assignable [OF hd, of "get data p"] obtain this' where
      s: "setProperty this p (get data p) = Inr this'"
      and e: "extensible this' = extensible this" and c: "proto_chain this' = proto_chain this"
      and w: "\<exists>cur. map_of (props this') p = Some cur \<and> pvalue cur = get data p \<and> writable cur"
      by blast
    from Cons.IH [OF assignable_step [OF tl s e c w] assignable_step [OF Cons.prems(2) s e c w]]
      True s call
    show ?thesis by simp
  qed
qed

text \<open>
  C2. \<open>assign(data)\<close> never touches a key outside the declared fields, whether it returns
  or throws, so a key of \<open>data\<close> that is not declared never appears on the instance.
  When \<open>data\<close> has the method \<open>hasOwnProperty\<close> and the declared fields of the instance
  can be written, it returns normally, each declared field that \<open>data\<close> has as an own
  property takes the value of \<open>data\<close>, and every other field keeps its value. When
  \<open>data\<close> lacks the method and a field is declared, the call throws a \<open>TypeError\<close> and
  copies nothing.
\<close>

theorem assign_copies_declared_only:
  "(k \<notin> set (coreProperties cls) \<longrightarrow>
      map_of (props (snd (assign cls this data))) k = map_of (props this) k)
   \<and> (has_hasOwnProperty data \<and> assignable (coreProperties cls) this \<longrightarrow>
      fst (assign cls this data) = None \<and>
      get (snd (assign cls this data)) k =
        (if k \<in> set (coreProperties cls) \<and> hasOwnProperty data k then get data k
         else get this k) \<and>
      hasOwnProperty (snd (assign cls this data)) k =
        (hasOwnProperty this k \<or> k \<in> set (coreProperties cls) \<and> hasOwnProperty data k))
   \<and> (\<not> has_hasOwnProperty data \<and> coreProperties cls \<noteq> [] \<longrightarrow>
      assign cls this data = (Some TypeError, this))"
  using assign_fields_frame [of k "coreProperties cls" this data]
    assign_fields_ok [of data "coreProperties cls" this]
    assign_fields_throws [of data "coreProperties cls" this]
  by (simp add: assign_def)

theorem assign_copies_declared_only_witness:
  "''evil'' \<notin> set (coreProperties \<lparr>coreProperties = [''x'', ''y''], defaults = empty_object\<rparr>)
   \<and> has_hasOwnProperty (json_object [(''x'', Num 5), (''evil'', Str ''payload'')])
   \<and> assignable (coreProperties \<lparr>coreProperties = [''x'', ''y''], defaults = empty_object\<rparr>)
        (json_object [(''x'', Null), (''y'', Null)])
   \<and> fst (assign \<lparr>coreProperties = [''x'', ''y''], defaults = empty_object\<rparr>
          (json_object [(''x'', Null), (''y'', Null)])
          (json_object [(''x'', Num 5), (''evil'', Str ''payload'')])) = None
   \<and> get (snd (assign \<lparr>coreProperties = [''x'', ''y''], defaults = empty_object\<rparr>
          (json_object [(''x'', Null), (''y'', Null)])
          (json_object [(''x'', Num 5), (''evil'', Str ''payload'')]))) ''x'' = Num 5
   \<and> map_of (props (snd (assign \<lparr>coreProperties = [''x'', ''y''], defaults = empty_object\<rparr>
          (json_object [(''x'', Null), (''y'', Null)])
          (json_object [(''x'', Num 5), (''evil'', Str ''payload'')])))) ''evil'' = None
   \<and> \<not> has_hasOwnProperty (json_object [(''hasOwnProperty'', Num 1), (''x'', Num 5)])
   \<and> assign \<lparr>coreProperties = [''x'', ''y''], defaults = empty_object\<rparr>
        (json_object [(''x'', Null), (''y'', Null)])
        (json_object [(''hasOwnProperty'', Num 1), (''x'', Num 5)])
      = (Some TypeError, json_object [(''x'', Null), (''y'', Null)])"
proof -
  let ?cls = "\<lparr>coreProperties = [''x'', ''y''], defaults = empty_object\<rparr>"
  let ?inst = "json_object [(''x'', Null), (''y'', Null)]"
  let ?x = "json_object [(''x'', Num 5), (''evil'', Str ''payload'')]"
  let ?bad = "json_object [(''hasOwnProperty'', Num 1), (''x'', Num 5)]"
  have f: "''evil'' \<notin> set (coreProperties ?cls)" "coreProperties ?cls \<noteq> []"
    "''x'' \<in> set (coreProperties ?cls)"
    by simp_all
  have h: "has_hasOwnProperty ?x"
    by (simp add: has_hasOwnProperty_def inherits_Object_def hasOwnProperty_def json_object_def)
  have nh: "\<not> has_hasOwnProperty ?bad"
    by (simp add: has_hasOwnProperty_def hasOwnProperty_def json_object_def)
  have a: "assignable (coreProperties ?cls) ?inst"
    by (simp add: assignable_def json_object_def)
  have own: "hasOwnProperty ?x ''x''" "get ?x ''x'' = Num 5"
    "map_of (props ?inst) ''evil'' = None"
    by (simp_all add: hasOwnProperty_def get_def json_object_def)
  note t1 = assign_copies_declared_only [of "''evil''" ?cls ?inst ?x]
  note t2 = assign_copies_declared_only [of "''x''" ?cls ?inst ?x]
  note t3 = assign_copies_declared_only [of "''x''" ?cls ?inst ?bad]
  from t1 f(1) have c1: "map_of (props (snd (assign ?cls ?inst ?x))) ''evil'' = None"
    by (simp only: own) blast
  from t2 h a have c2: "fst (assign ?cls ?inst ?x) = None"
    "get (snd (assign ?cls ?inst ?x)) ''x'' = (if ''x'' \<in> set (coreProperties ?cls) \<and>
       hasOwnProperty ?x ''x'' then get ?x ''x'' else get ?inst ''x'')"
    by blast+
  from t3 nh f(2) have c3: "assign ?cls ?inst ?bad = (Some TypeError, ?inst)" by blast
  from c2(2) have c2': "get (snd (assign ?cls ?inst ?x)) ''x'' = Num 5"
    by (simp only: f(3) own) simp
  from f(1) h a c2(1) c2' c1 nh c3 show ?thesis by blast
qed

text \<open>
  C2 as it was stated (any data object) fails on data that owns a key \<open>hasOwnProperty\<close>:
  the declared field \<open>x\<close> that the data has is not copied.
\<close>

theorem assign_counterexample:
  "hasOwnProperty (json_object [(''hasOwnProperty'', Num 1), (''x'', Num 5)]) ''x''
   \<and> assign \<lparr>coreProperties = [''x'', ''y''], defaults = empty_object\<rparr>
        (json_object [(''x'', Null), (''y'', Null)])
        (json_object [(''hasOwnProperty'', Num 1), (''x'', Num 5)])
      = (Some TypeError, json_object [(''x'', Null), (''y'', Null)])
   \<and> get (json_object [(''x'', Null), (''y'', Null)]) ''x'' = Null"
  by (simp add: assign_def call_hasOwnProperty_def hasOwnProperty_def get_def json_object_def)

text \<open>
  The factory always yields a class, whose defaults have the declared fields as keys.
  For a class that declares neither \<open>__proto__\<close> nor \<open>hasOwnProperty\<close>, and data that
  has the method \<open>hasOwnProperty\<close> (or no data), the constructor yields an instance that
  has exactly the declared fields and is assignable on them.
\<close>

lemma default_valued_lookup:
  "default_valued d \<Longrightarrow> map_of (props d) k = Some p \<Longrightarrow>
   p = \<lparr>pvalue = Null, writable = False, enumerable = True, configurable = False\<rparr>"
  by (auto simp: default_valued_def list_all_iff dest!: map_of_SomeD)

lemma defineProperty_default:
  assumes "default_valued d"
  shows "\<exists>d'. defineProperty d p
             \<lparr>pvalue = Null, writable = False, enumerable = True, configurable = False\<rparr> = Inr d'
           \<and> default_valued d' \<and> fst ` set (props d') = insert p (fst ` set (props d))"
proof (cases "map_of (props d) p")
  case None
  with assms show ?thesis
    by (auto simp: defineProperty_def default_valued_def)
next
  case (Some cur)
  with assms have c: "cur = \<lparr>pvalue = Null, writable = False, enumerable = True,
      configurable = False\<rparr>"
    using default_valued_lookup by blast
  from Some have "p \<in> fst ` set (props d)"
    by (metis map_of_eq_None_iff option.distinct(1))
  with Some c assms show ?thesis
    by (auto simp: defineProperty_def SameValue_def)
qed

lemma define_defaults_ok:
  "default_valued d \<Longrightarrow>
   \<exists>d'. define_defaults ps d = Inr d' \<and> default_valued d' \<and>
        fst ` set (props d') = set ps \<union> fst ` set (props d)"
proof (induction ps arbitrary: d)
  case Nil
  then show ?case by simp
next
  case (Cons p ps)
  from defineProperty_default [OF Cons.prems, of p] obtain d1 where
    d1: "defineProperty d p
           \<lparr>pvalue = Null, writable = False, enumerable = True, configurable = False\<rparr> = Inr d1"
      "default_valued d1" "fst ` set (props d1) = insert p (fst ` set (props d))"
    by blast
  from Cons.IH [OF d1(2)] obtain d' where
    "define_defaults ps d1 = Inr d'" "default_valued d'"
    "fst ` set (props d') = set ps \<union> fst ` set (props d1)"
    by blast
  with d1 show ?case by auto
qed

lemma default_valued_keys: "default_valued d \<Longrightarrow> set (Object_keys d) = fst ` set (props d)"
proof -
  assume dv: "default_valued d"
  have "(k \<in> set (Object_keys d)) = (k \<in> fst ` set (props d))" for k
  proof -
    have "(k \<in> fst ` set (props d)) = (map_of (props d) k \<noteq> None)"
      by (simp add: map_of_eq_None_iff)
    then show ?thesis
      using default_valued_lookup [OF dv, of k] by (auto simp: Object_keys_iff)
  qed
  then show ?thesis by blast
qed

lemma reporterClassFactory_ok:
  "\<exists>d. reporterClassFactory ps = Inr \<lparr>coreProperties = ps, defaults = d\<rparr> \<and>
       set (Object_keys d) = set ps"
proof -
  have "default_valued empty_object" by (simp add: default_valued_def empty_object_def)
  from define_defaults_ok [OF this, of ps] obtain d where
    d: "define_defaults ps empty_object = Inr d" "default_valued d"
    "fst ` set (props d) = set ps \<union> fst ` set (props empty_object)"
    by blast
  from d(3) have "fst ` set (props d) = set ps" by (simp add: empty_object_def)
  with d(1) default_valued_keys [OF d(2)] show ?thesis
    by (simp add: reporterClassFactory_def)
qed

lemma initialize_omitted: "initialize (Some d) None = initialize (Some d) (Some empty_object)"
  by (simp add: initialize_def)

lemma has_hasOwnProperty_empty: "has_hasOwnProperty empty_object"
  by (simp add: has_hasOwnProperty_def inherits_Object_def hasOwnProperty_def empty_object_def)

lemma Reporter_new_assignable:
  assumes "reporterClassFactory ps = Inr cls"
    and "''__proto__'' \<notin> set ps" and "''hasOwnProperty'' \<notin> set ps"
    and "case data of None \<Rightarrow> True | Some x \<Rightarrow> has_hasOwnProperty x"
  shows "fst (Reporter_new cls data) = None
       \<and> assignable (coreProperties cls) (snd (Reporter_new cls data))
       \<and> (\<forall>k. hasOwnProperty (snd (Reporter_new cls data)) k = (k \<in> set (coreProperties cls)))"
proof -
  from reporterClassFactory_ok [of ps] assms(1) obtain d where
    cls: "cls = \<lparr>coreProperties = ps, defaults = d\<rparr>" and keys: "set (Object_keys d) = set ps"
    by auto
  let ?inst = "\<lparr>props = [], extensible = True, proto_chain = [''Reporter'', ''Object'']\<rparr>"
  obtain x where x: "initialize (Some d) data = initialize (Some d) (Some x)"
    and hx: "has_hasOwnProperty x"
  proof (cases data)
    case None
    with that [of empty_object] show ?thesis
      by (simp add: initialize_omitted has_hasOwnProperty_empty)
  next
    case (Some y)
    with that [of y] assms(4) show ?thesis by simp
  qed
  from initialize_props [OF hx, of d] x keys assms(2) obtain r where
    r: "initialize (Some d) data = Inr r" and c: "proto_chain r = [''Object'']"
    and m: "map_of (props r) =
        (\<lambda>k. if k \<in> set ps \<and> k \<noteq> ''__proto__''
             then Some \<lparr>pvalue = (if hasOwnProperty x k then get x k else get d k),
                        writable = True, enumerable = True, configurable = True\<rparr>
             else None)"
    by auto
  have hr: "has_hasOwnProperty r"
    using c assms(3) by (simp add: has_hasOwnProperty_def inherits_Object_def hasOwnProperty_def m)
  have own: "hasOwnProperty r k = (k \<in> set ps)" for k
    using assms(2) by (auto simp: hasOwnProperty_def m)
  have a: "assignable ps ?inst"
    using assms(2) by (auto simp: assignable_def list_all_iff)
  from assign_fields_ok [OF hr a] assign_fields_assignable [OF hr a a] own r
  show ?thesis
    by (simp add: Reporter_new_def assign_def cls hasOwnProperty_def)
qed

section \<open>Properties of IDStamper\<close>

subsection \<open>The counter\<close>

text \<open>
  Below \<open>2 ^ 53\<close> the double sum \<open>x + 1\<close> is exact; at \<open>2 ^ 53\<close> it rounds back to
  \<open>2 ^ 53\<close>, so \<open>willNotOverflow\<close> fails there for the first time and the generator
  returns.
\<close>

lemma floorlog_54: "2 ^ 53 \<le> n \<Longrightarrow> n < 2 ^ 54 \<Longrightarrow> floorlog 2 n = 54"
proof -
  assume a: "2 ^ 53 \<le> n" and b: "n < 2 ^ 54"
  have "54 \<le> floorlog 2 n" using floorlog_geI [of 2 54 n] a by simp
  moreover have "floorlog 2 n \<le> 54" using b by (simp add: floorlog_le_iff)
  ultimately show ?thesis by simp
qed

lemma round_double_small: "n < 2 ^ 53 \<Longrightarrow> round_double n = n"
  by (simp add: round_double_def)

lemma round_double_ceiling: "round_double (2 ^ 53) = 2 ^ 53"
proof -
  have "floorlog 2 ((2::nat) ^ 53) = 54" by (rule floorlog_54) simp_all
  then show ?thesis by (simp add: round_double_def Let_def)
qed

lemma round_double_past_ceiling: "round_double (2 ^ 53 + 1) = 2 ^ 53"
proof -
  have "floorlog 2 ((2::nat) ^ 53 + 1) = 54" by (rule floorlog_54) simp_all
  then show ?thesis by (simp add: round_double_def Let_def)
qed

lemma willNotOverflow_iff: "n \<le> 2 ^ 53 \<Longrightarrow> willNotOverflow n = (n < 2 ^ 53)"
proof -
  assume le: "n \<le> 2 ^ 53"
  consider "n + 1 < 2 ^ 53" | "n + 1 = 2 ^ 53" | "n = 2 ^ 53" using le by linarith
  then show ?thesis
  proof cases
    case 1
    then show ?thesis by (simp add: willNotOverflow_def round_double_small)
  next
    case 2
    then show ?thesis using round_double_ceiling by (simp add: willNotOverflow_def)
  next
    case 3
    then show ?thesis using round_double_past_ceiling by (simp add: willNotOverflow_def)
  qed
qed

lemma gen_next_below:
  "n < 2 ^ 53 \<Longrightarrow> gen_next (Suspended n) = (Num (int n + 1), Suspended (n + 1))"
proof -
  assume lt: "n < 2 ^ 53"
  have w: "willNotOverflow n" using lt by (simp add: willNotOverflow_iff)
  have "round_double (n + 1) = n + 1"
  proof (cases "n + 1 < 2 ^ 53")
    case True
    then show ?thesis by (simp add: round_double_small)
  next
    case False
    with lt have "n + 1 = 2 ^ 53" by linarith
    then show ?thesis using round_double_ceiling by simp
  qed
  with w show ?thesis by (simp add: Let_def)
qed

lemma gen_next_ceiling: "gen_next (Suspended (2 ^ 53)) = (Undefined, Completed)"
  using willNotOverflow_iff [of "2 ^ 53"] by simp

lemma gen_iterate:
  "n \<le> 2 ^ 53 \<Longrightarrow> ((\<lambda>g. snd (gen_next g)) ^^ n) id_gen = Suspended n"
proof (induction n)
  case 0
  then show ?case by (simp add: id_gen_def)
next
  case (Suc n)
  then have "n < 2 ^ 53" by simp
  with Suc show ?case by (simp add: gen_next_below del: gen_next.simps)
qed

subsection \<open>Stamping\<close>

lemma defineProperty_get:
  "defineProperty obj k d = Inr obj' \<Longrightarrow> get obj' k = pvalue d"
  by (auto simp: defineProperty_def get_def update_conv' map_add_def SameValue_def
      split: option.splits if_splits)

lemma stamp_explicit:
  "id_arg \<noteq> Undefined \<Longrightarrow>
   snd (snd (stamp this obj id_arg)) = this \<and>
   (fst (stamp this obj id_arg) = Inl TypeError \<or> fst (stamp this obj id_arg) = Inr id_arg)"
  by (auto simp: stamp_def defineProperty_get split: sum.splits)
    (auto simp: defineProperty_def split: option.splits if_splits)

lemma stamp_generated:
  assumes "gen this = Suspended n" and "n < 2 ^ 53"
  shows "snd (snd (stamp this obj Undefined)) = this\<lparr>gen := Suspended (n + 1)\<rparr> \<and>
   (fst (stamp this obj Undefined) = Inl TypeError \<or>
    fst (stamp this obj Undefined) = Inr (Num (int n + 1)))"
proof -
  have g: "gen_next (gen this) = (Num (int n + 1), Suspended (n + 1))"
    using assms by (simp add: gen_next_below del: gen_next.simps)
  show ?thesis
  proof (cases "defineProperty obj ''id''
      \<lparr>pvalue = Num (int n + 1), writable = False, enumerable = True, configurable = False\<rparr>")
    case (Inl e)
    then have "e = TypeError"
      by (auto simp: defineProperty_def split: option.splits if_splits)
    with Inl g show ?thesis by (simp add: stamp_def)
  next
    case (Inr obj')
    with g defineProperty_get [OF Inr] show ?thesis by (simp add: stamp_def)
  qed
qed

lemma stamp_all_Cons:
  "stamp_all this ((obj, id_arg) # calls) =
     fst (stamp this obj id_arg) # stamp_all (snd (snd (stamp this obj id_arg))) calls"
  by (simp add: split_def Let_def)

lemma stamp_all_nth:
  "gen this = Suspended n \<Longrightarrow>
   n + length (filter (\<lambda>c. snd c = Undefined) calls) \<le> 2 ^ 53 \<Longrightarrow>
   i < length calls \<Longrightarrow> snd (calls ! i) = Undefined \<Longrightarrow>
   stamp_all this calls ! i = Inr a \<Longrightarrow>
   a = Num (int n + int (length (filter (\<lambda>c. snd c = Undefined) (take (Suc i) calls))))"
proof (induction calls arbitrary: this n i)
  case Nil
  then show ?case by simp
next
  case (Cons c calls)
  obtain obj id_arg where c: "c = (obj, id_arg)" by (cases c)
  show ?case
  proof (cases i)
    case 0
    with Cons.prems c have u: "id_arg = Undefined" and r: "fst (stamp this obj Undefined) = Inr a"
      by (simp_all add: stamp_all_Cons del: stamp_all.simps)
    from Cons.prems(2) c u have "n < 2 ^ 53" by simp
    from stamp_generated [OF Cons.prems(1) this, of obj] r have "a = Num (int n + 1)" by auto
    with 0 c u show ?thesis by simp
  next
    case (Suc i')
    let ?this' = "snd (snd (stamp this obj id_arg))"
    from Cons.prems Suc c have i': "i' < length calls" "snd (calls ! i') = Undefined"
      and r: "stamp_all ?this' calls ! i' = Inr a"
      by (simp_all add: stamp_all_Cons del: stamp_all.simps)
    show ?thesis
    proof (cases "id_arg = Undefined")
      case True
      from Cons.prems(2) c True have lt: "n < 2 ^ 53"
        and le: "(n + 1) + length (filter (\<lambda>c. snd c = Undefined) calls) \<le> 2 ^ 53" by simp_all
      from stamp_generated [OF Cons.prems(1) lt, of obj] True
      have g: "gen ?this' = Suspended (n + 1)" by simp
      from Cons.IH [OF g le i' r] Suc c True show ?thesis by simp
    next
      case False
      from stamp_explicit [OF False, of this obj] Cons.prems(1)
      have g: "gen ?this' = Suspended n" by simp
      from Cons.prems(2) c False
      have le: "n + length (filter (\<lambda>c. snd c = Undefined) calls) \<le> 2 ^ 53" by simp
      from Cons.IH [OF g le i' r] Suc c False show ?thesis by simp
    qed
  qed
qed

lemma filter_take_mono:
  "i \<le> j \<Longrightarrow> length (filter P (take i xs)) \<le> length (filter P (take j xs))"
proof -
  assume "i \<le> j"
  then have "take j xs = take i xs @ take (j - i) (drop i xs)"
    by (metis le_add_diff_inverse take_add)
  then show ?thesis by simp
qed

lemma stamp_all_sample:
  "stamp_all IDStamper_new
     [(empty_object, Undefined), (empty_object, Num 7), (empty_object, Undefined)]
   = [Inr (Num 1), Inr (Num 7), Inr (Num 2)]"
  by (simp add: IDStamper_new_def id_gen_def stamp_def defineProperty_def empty_object_def
      willNotOverflow_def round_double_def get_def Let_def)

text \<open>
  Stamping an id leaves an instance assignable on any field list that does not declare
  \<open>id\<close>.
\<close>

lemma defineProperty_other:
  "defineProperty obj k d = Inr obj' \<Longrightarrow> k' \<noteq> k \<Longrightarrow>
   map_of (props obj') k' = map_of (props obj) k' \<and> extensible obj' = extensible obj"
  by (auto simp: defineProperty_def update_conv' map_add_def split: option.splits if_splits)

lemma defineProperty_proto_chain:
  "defineProperty obj k d = Inr obj' \<Longrightarrow> proto_chain obj' = proto_chain obj"
  by (auto simp: defineProperty_def split: option.splits if_splits)

lemma stamp_preserves_assignable:
  assumes "''id'' \<notin> set ps" and "assignable ps obj"
  shows "assignable ps (fst (snd (stamp this obj id_arg)))"
proof -
  obtain v this' where v: "(if id_arg = Undefined
             then (let (v, g) = gen_next (gen this) in (v, this\<lparr>gen := g\<rparr>))
             else (id_arg, this)) = (v, this')"
    by (cases "(if id_arg = Undefined
             then (let (v, g) = gen_next (gen this) in (v, this\<lparr>gen := g\<rparr>))
             else (id_arg, this))")
  show ?thesis
  proof (cases "defineProperty obj ''id''
      \<lparr>pvalue = v, writable = False, enumerable = True, configurable = False\<rparr>")
    case (Inl e)
    with v assms(2) show ?thesis by (simp add: stamp_def del: gen_next.simps)
  next
    case (Inr obj')
    have "assignable ps obj'"
      unfolding assignable_def list_all_iff
    proof
      fix p assume p: "p \<in> set ps"
      with assms(1) have ne: "p \<noteq> ''id''" by auto
      from assms(2) p
      have "case map_of (props obj) p of
              None \<Rightarrow> extensible obj \<and> \<not> (p = ''__proto__'' \<and> inherits_Object obj)
            | Some cur \<Rightarrow> writable cur"
        by (simp add: assignable_def list_all_iff)
      with defineProperty_other [OF Inr ne] defineProperty_proto_chain [OF Inr]
      show "case map_of (props obj') p of
              None \<Rightarrow> extensible obj' \<and> \<not> (p = ''__proto__'' \<and> inherits_Object obj')
            | Some cur \<Rightarrow> writable cur"
        by (simp add: inherits_Object_def split: option.splits)
    qed
    with v Inr show ?thesis by (simp add: stamp_def del: gen_next.simps)
  qed
qed

text \<open>
  C7. In any run of calls on a new stamper in which at most \<open>2 ^ 53\<close> ids are
  generated, a call without explicit id that returns yields the number of such calls
  made so far, itself included: the first generated id is 1, every generated id is a
  positive integer, and of two such calls the later returns the strictly larger id.
\<close>

theorem stamp_ids_increase:
  assumes "length (filter (\<lambda>c. snd c = Undefined) calls) \<le> 2 ^ 53"
    and "i < j" and "j < length calls"
    and "snd (calls ! i) = Undefined" and "snd (calls ! j) = Undefined"
    and "stamp_all IDStamper_new calls ! i = Inr a"
    and "stamp_all IDStamper_new calls ! j = Inr b"
  shows "a = Num (int (length (filter (\<lambda>c. snd c = Undefined) (take (Suc i) calls))))
       \<and> b = Num (int (length (filter (\<lambda>c. snd c = Undefined) (take (Suc j) calls))))
       \<and> 0 < length (filter (\<lambda>c. snd c = Undefined) (take (Suc i) calls))
       \<and> length (filter (\<lambda>c. snd c = Undefined) (take (Suc i) calls))
           < length (filter (\<lambda>c. snd c = Undefined) (take (Suc j) calls))"
proof -
  let ?P = "\<lambda>c. snd c = Undefined"
  have g: "gen IDStamper_new = Suspended 0" by (simp add: IDStamper_new_def id_gen_def)
  have le: "0 + length (filter ?P calls) \<le> 2 ^ 53" using assms(1) by simp
  have i: "i < length calls" using assms(2,3) by simp
  have a: "a = Num (int (length (filter ?P (take (Suc i) calls))))"
    using stamp_all_nth [OF g le i assms(4) assms(6)] by simp
  have b: "b = Num (int (length (filter ?P (take (Suc j) calls))))"
    using stamp_all_nth [OF g le assms(3) assms(5) assms(7)] by simp
  have ti: "take (Suc i) calls = take i calls @ [calls ! i]"
    using i by (simp add: take_Suc_conv_app_nth)
  have tj: "take (Suc j) calls = take j calls @ [calls ! j]"
    using assms(3) by (simp add: take_Suc_conv_app_nth)
  have pos: "0 < length (filter ?P (take (Suc i) calls))"
    using ti assms(4) by simp
  have "length (filter ?P (take (Suc i) calls)) \<le> length (filter ?P (take j calls))"
    using filter_take_mono [of "Suc i" j ?P calls] assms(2) by simp
  also have "\<dots> < length (filter ?P (take (Suc j) calls))"
    using tj assms(5) by simp
  finally show ?thesis using a b pos by simp
qed

theorem stamp_ids_increase_witness:
  "stamp_all IDStamper_new
     [(empty_object, Undefined), (empty_object, Num 7), (empty_object, Undefined)] ! 0
     = Inr (Num 1)
   \<and> stamp_all IDStamper_new
     [(empty_object, Undefined), (empty_object, Num 7), (empty_object, Undefined)] ! 2
     = Inr (Num 2)
   \<and> length (filter (\<lambda>c. snd c = Undefined)
        [(empty_object, Undefined), (empty_object, Num 7), (empty_object, Undefined)]) \<le> 2 ^ 53
   \<and> length (filter (\<lambda>c. snd c = Undefined)
        (take (Suc 0) [(empty_object, Undefined), (empty_object, Num 7), (empty_object, Undefined)]))
      < length (filter (\<lambda>c. snd c = Undefined)
        (take (Suc 2) [(empty_object, Undefined), (empty_object, Num 7), (empty_object, Undefined)]))"
  using stamp_ids_increase [of
      "[(empty_object, Undefined), (empty_object, Num 7), (empty_object, Undefined)]"
      0 2 "Num 1" "Num 2"] stamp_all_sample
  by simp

lemma restamp_value:
  assumes "map_of (props obj) ''id'' = Some \<lparr>pvalue = v, writable = False, enumerable = True, configurable = False\<rparr>"
  shows "defineProperty obj ''id'' \<lparr>pvalue = v', writable = False, enumerable = True, configurable = False\<rparr> =
           (if v' = v then Inr obj else Inl TypeError)"
  using assms by (simp add: defineProperty_def SameValue_def)

text \<open>
  C5. Stamping an object whose id is already stamped never changes the object, but it
  returns normally (with the id) only when the value to stamp is the value already
  there; with any other value \<open>Object.defineProperty\<close> rejects the redefinition and the
  call throws a \<open>TypeError\<close>. A call without explicit id consumes a counter value either
  way.
\<close>

theorem restamp_same_value_only:
  assumes "map_of (props obj) ''id'' = Some \<lparr>pvalue = v, writable = False, enumerable = True, configurable = False\<rparr>"
  shows "fst (snd (stamp this obj id_arg)) = obj
       \<and> (id_arg \<noteq> Undefined \<longrightarrow>
            fst (stamp this obj id_arg) = (if id_arg = v then Inr v else Inl TypeError)
            \<and> snd (snd (stamp this obj id_arg)) = this)
       \<and> (id_arg = Undefined \<longrightarrow>
            fst (stamp this obj id_arg) =
              (if fst (gen_next (gen this)) = v then Inr v else Inl TypeError)
            \<and> snd (snd (stamp this obj id_arg)) = this\<lparr>gen := snd (gen_next (gen this))\<rparr>)"
proof -
  have g: "get obj ''id'' = v" using assms by (simp add: get_def)
  show ?thesis
    by (simp add: stamp_def restamp_value [OF assms] g split_def Let_def del: gen_next.simps)
qed

theorem restamp_same_value_only_witness:
  "map_of (props (stamped_object (Num 1) [''Object''])) ''id'' =
     Some \<lparr>pvalue = Num 1, writable = False, enumerable = True, configurable = False\<rparr>
   \<and> stamp \<lparr>gen = Suspended 1\<rparr> (stamped_object (Num 1) [''Object'']) (Num 1) =
       (Inr (Num 1), stamped_object (Num 1) [''Object''], \<lparr>gen = Suspended 1\<rparr>)
   \<and> stamp \<lparr>gen = Suspended 1\<rparr> (stamped_object (Num 1) [''Object'']) (Num 4) =
       (Inl TypeError, stamped_object (Num 1) [''Object''], \<lparr>gen = Suspended 1\<rparr>)
   \<and> stamp \<lparr>gen = Suspended 1\<rparr> (stamped_object (Num 1) [''Object'']) Undefined =
       (Inl TypeError, stamped_object (Num 1) [''Object''], \<lparr>gen = Suspended 2\<rparr>)
   \<and> stamp \<lparr>gen = Suspended 0\<rparr> (stamped_object (Num 1) [''Object'']) Undefined =
       (Inr (Num 1), stamped_object (Num 1) [''Object''], \<lparr>gen = Suspended 1\<rparr>)"
proof -
  have m: "map_of (props (stamped_object (Num 1) [''Object''])) ''id'' =
     Some \<lparr>pvalue = Num 1, writable = False, enumerable = True, configurable = False\<rparr>"
    by (simp add: stamped_object_def)
  have g: "gen_next (Suspended 0) = (Num 1, Suspended 1)"
      "gen_next (Suspended 1) = (Num 2, Suspended 2)"
    by (simp_all add: willNotOverflow_def round_double_def)
  show ?thesis
    using m g
      restamp_same_value_only [OF m, of "\<lparr>gen = Suspended 1\<rparr>" "Num 1"]
      restamp_same_value_only [OF m, of "\<lparr>gen = Suspended 1\<rparr>" "Num 4"]
      restamp_same_value_only [OF m, of "\<lparr>gen = Suspended 1\<rparr>" "Undefined"]
      restamp_same_value_only [OF m, of "\<lparr>gen = Suspended 0\<rparr>" "Undefined"]
    by (simp add: prod_eq_iff del: gen_next.simps)
qed

text \<open>
  C5 as it was stated (a second stamp never throws) fails: stamp a fresh object and then
  stamp it again, both times without explicit id, and the second call throws.
\<close>

theorem restamp_throws_counterexample:
  "stamp IDStamper_new empty_object Undefined =
     (Inr (Num 1), stamped_object (Num 1) [''Object''], \<lparr>gen = Suspended 1\<rparr>)
   \<and> stamp \<lparr>gen = Suspended 1\<rparr> (stamped_object (Num 1) [''Object'']) Undefined =
     (Inl TypeError, stamped_object (Num 1) [''Object''], \<lparr>gen = Suspended 2\<rparr>)"
  by (simp add: IDStamper_new_def id_gen_def stamp_def defineProperty_def empty_object_def
      stamped_object_def willNotOverflow_def round_double_def get_def Let_def SameValue_def)

text \<open>
  C6. After \<open>2 ^ 53\<close> generated ids the generator is suspended at \<open>2 ^ 53\<close>. The next
  call without explicit id finds the generator returning \<open>undefined\<close>: it throws
  nothing, stamps \<open>undefined\<close> as the id and returns it, and so does every later call.
\<close>

theorem stamp_after_exhaustion:
  "((\<lambda>g. snd (gen_next g)) ^^ (2 ^ 53)) id_gen = Suspended (2 ^ 53)
   \<and> stamp \<lparr>gen = Suspended (2 ^ 53)\<rparr> empty_object Undefined =
       (Inr Undefined, stamped_object Undefined [''Object''], \<lparr>gen = Completed\<rparr>)
   \<and> stamp \<lparr>gen = Completed\<rparr> empty_object Undefined =
       (Inr Undefined, stamped_object Undefined [''Object''], \<lparr>gen = Completed\<rparr>)"
proof -
  have r: "((\<lambda>g. snd (gen_next g)) ^^ (2 ^ 53)) id_gen = Suspended (2 ^ 53)"
    by (rule gen_iterate) simp
  have s: "stamp \<lparr>gen = Suspended (2 ^ 53)\<rparr> empty_object Undefined =
       (Inr Undefined, stamped_object Undefined [''Object''], \<lparr>gen = Completed\<rparr>)"
    using gen_next_ceiling
    by (simp add: stamp_def defineProperty_def empty_object_def stamped_object_def get_def
        del: gen_next.simps)
  have c: "stamp \<lparr>gen = Completed\<rparr> empty_object Undefined =
       (Inr Undefined, stamped_object Undefined [''Object''], \<lparr>gen = Completed\<rparr>)"
    by (simp add: stamp_def defineProperty_def empty_object_def stamped_object_def get_def)
  from r s c show ?thesis by (simp del: gen_next.simps)
qed

section \<open>Properties of Publishable\<close>

lemma publish_scheduled: "scheduled (publish e s) e"
  by (simp add: publish_def)



lemma publish_emitted: "emitted (publish e s) = emitted s"
  by (simp add: publish_def)

lemma publish_count:
  "count_list (immediates (publish e s)) e' =
     (if e' = e \<and> \<not> scheduled s e then Suc (count_list (immediates s) e')
      else count_list (immediates s) e')"
  by (simp add: publish_def)

lemma perform_all_emitted: "emitted (foldl perform s acts) = emitted s"
proof (induction acts arbitrary: s)
  case Nil
  then show ?case by simp
next
  case (Cons a acts)
  then show ?case by (cases a) (simp add: publish_emitted)
qed




text \<open>
  The invariant holds at the start, every \<open>publish()\<close> keeps it, and so does every
  immediate phase that runs to its end.
\<close>

lemma pending_initial: "pending [] initial_loop"
  by (simp add: pending_def initial_loop_def)

lemma pending_publish: "pending queue s \<Longrightarrow> pending queue (publish e s)"
  unfolding pending_def
proof
  fix e' assume a: "\<forall>e. count_list queue e + count_list (immediates s) e
      = (if scheduled s e then 1 else 0)"
  from a have "count_list queue e + count_list (immediates s) e = (if scheduled s e then 1 else 0)"
    and "count_list queue e' + count_list (immediates s) e' = (if scheduled s e' then 1 else 0)"
    by blast+
  then show "count_list queue e' + count_list (immediates (publish e s)) e'
      = (if scheduled (publish e s) e' then 1 else 0)"
    by (auto simp: publish_def)
qed

lemma pending_perform_all: "pending queue s \<Longrightarrow> pending queue (foldl perform s acts)"
proof (induction acts arbitrary: s)
  case Nil
  then show ?case by simp
next
  case (Cons a acts)
  obtain e where "a = Publish e" by (cases a)
  with Cons show ?case by (simp add: pending_publish)
qed

lemma pending_symbols_emit:
  assumes "pending (e # queue) s" and "symbols_emit impl e s = (None, s')"
  shows "pending queue s'"
proof -
  let ?s1 = "s\<lparr>scheduled := (scheduled s)(e := False), emitted := emitted s @ [e]\<rparr>"
  have p1: "pending queue ?s1"
    unfolding pending_def
  proof
    fix e'
    from assms(1) have "count_list (e # queue) e' + count_list (immediates s) e'
        = (if scheduled s e' then 1 else 0)"
      by (simp add: pending_def)
    then show "count_list queue e' + count_list (immediates ?s1) e'
        = (if scheduled ?s1 e' then 1 else 0)"
      by (auto split: if_splits)
  qed
  from assms(2) obtain acts where "impl e = Some acts" and "s' = foldl perform ?s1 acts"
    by (auto simp: symbols_emit_def emitPublication_def Let_def split: option.splits)
  with pending_perform_all [OF p1] show ?thesis by simp
qed

lemma pending_run_immediates:
  "pending queue s \<Longrightarrow> run_immediates impl queue s = (None, s') \<Longrightarrow> pending [] s'"
proof (induction queue arbitrary: s)
  case Nil
  then show ?case by simp
next
  case (Cons e queue)
  obtain x s1 where se: "symbols_emit impl e s = (x, s1)" by (cases "symbols_emit impl e s")
  with Cons.prems(2) have x: "x = None" and r: "run_immediates impl queue s1 = (None, s')"
    by (auto split: option.splits)
  from pending_symbols_emit [OF Cons.prems(1)] se x have "pending queue s1" by simp
  from Cons.IH [OF this r] show ?case .
qed

lemma pending_process_immediates:
  "pending [] s \<Longrightarrow> process_immediates impl s = (None, s') \<Longrightarrow> pending [] s'"
proof -
  assume p: "pending [] s" and r: "process_immediates impl s = (None, s')"
  have "pending (immediates s) (s\<lparr>immediates := []\<rparr>)"
    using p by (simp add: pending_def)
  from pending_run_immediates [OF this] r show ?thesis
    by (simp add: process_immediates_def)
qed

text \<open>
  Whatever the \<open>publish()\<close> calls of a turn and their order, an entity published in the
  turn ends it with exactly one callback in the queue.
\<close>

lemma publish_stays_scheduled: "scheduled s e \<Longrightarrow> scheduled (publish e' s) e"
  by (simp add: publish_def)

lemma pending_turn: "pending queue s \<Longrightarrow> pending queue (foldl (\<lambda>s e. publish e s) s es)"
  by (induction es arbitrary: s) (simp_all add: pending_publish)

lemma scheduled_turn:
  "scheduled s e \<or> e \<in> set es \<Longrightarrow> scheduled (foldl (\<lambda>s e. publish e s) s es) e"
proof (induction es arbitrary: s)
  case Nil
  then show ?case by simp
next
  case (Cons a es)
  then show ?case
    by (cases "a = e") (auto simp: publish_scheduled publish_stays_scheduled)
qed

lemma turn_queues_once:
  "pending [] s \<Longrightarrow> e \<in> set es \<Longrightarrow>
   count_list (immediates (foldl (\<lambda>s e. publish e s) s es)) e = 1"
  using pending_turn [of "[]" s es] scheduled_turn [of s e es]
  by (simp add: pending_def)



lemma perform_all_reentrant:
  "Publish e \<in> set acts \<Longrightarrow> \<not> scheduled s e \<Longrightarrow>
   scheduled (foldl perform s acts) e \<and>
   count_list (immediates (foldl perform s acts)) e = Suc (count_list (immediates s) e)"
proof -
  have keep: "scheduled s e \<Longrightarrow>
      scheduled (foldl perform s acts) e \<and>
      count_list (immediates (foldl perform s acts)) e = count_list (immediates s) e"
    for s acts
  proof (induction acts arbitrary: s)
    case Nil
    then show ?case by simp
  next
    case (Cons a acts)
    obtain e' where a: "a = Publish e'" by (cases a)
    have "scheduled (publish e' s) e" using Cons.prems by (simp add: publish_def)
    from Cons.IH [OF this] Cons.prems a show ?case by (auto simp: publish_count)
  qed
  show "Publish e \<in> set acts \<Longrightarrow> \<not> scheduled s e \<Longrightarrow>
   scheduled (foldl perform s acts) e \<and>
   count_list (immediates (foldl perform s acts)) e = Suc (count_list (immediates s) e)"
  proof (induction acts arbitrary: s)
    case Nil
    then show ?case by simp
  next
    case (Cons a acts)
    obtain e' where a: "a = Publish e'" by (cases a)
    show ?case
    proof (cases "e' = e")
      case True
      have "scheduled (publish e s) e" by (rule publish_scheduled)
      from keep [OF this, of acts] Cons.prems(2) a True show ?thesis
        by (simp add: publish_count)
    next
      case False
      with Cons.prems a have m: "Publish e \<in> set acts" by auto
      have n: "\<not> scheduled (publish e' s) e" using Cons.prems(2) False by (simp add: publish_def)
      from Cons.IH [OF m n] a False show ?thesis by (simp add: publish_count)
    qed
  qed
qed

text \<open>
  C4. When the entity's \<open>emitPublication\<close> itself calls \<open>publish()\<close> on the entity, the
  emission ends with the flag set again and one more callback for the entity in the
  queue: the flag was cleared before \<open>emitPublication\<close> ran, so the call was not a no-op.
\<close>

theorem emit_reentrant_publish:
  assumes "impl e = Some acts" and "Publish e \<in> set acts"
  shows "fst (symbols_emit impl e s) = None
       \<and> scheduled (snd (symbols_emit impl e s)) e
       \<and> count_list (immediates (snd (symbols_emit impl e s))) e
           = Suc (count_list (immediates s) e)
       \<and> emitted (snd (symbols_emit impl e s)) = emitted s @ [e]"
proof -
  let ?s1 = "s\<lparr>scheduled := (scheduled s)(e := False), emitted := emitted s @ [e]\<rparr>"
  have n: "\<not> scheduled ?s1 e" by simp
  have eq: "symbols_emit impl e s = (None, foldl perform ?s1 acts)"
    using assms(1) by (simp add: symbols_emit_def emitPublication_def Let_def)
  from perform_all_reentrant [OF assms(2) n] show ?thesis
    by (simp add: eq perform_all_emitted)
qed

theorem emit_reentrant_publish_witness:
  "Publish 7 \<in> set [Publish 8, Publish 7]
   \<and> symbols_emit (\<lambda>e. Some [Publish 8, Publish 7]) 7 (publish 7 initial_loop)
      = (None, \<lparr>scheduled = (\<lambda>e. False)(7 := True, 8 := True),
                immediates = [7, 8, 7], emitted = [7]\<rparr>)"
proof -
  have m: "Publish 7 \<in> set [Publish 8, Publish 7]" by simp
  have "symbols_emit (\<lambda>e. Some [Publish 8, Publish 7]) 7 (publish 7 initial_loop)
      = (None, \<lparr>scheduled = (\<lambda>e. False)(7 := True, 8 := True),
                immediates = [7, 8, 7], emitted = [7]\<rparr>)"
    using emit_reentrant_publish [of "\<lambda>e. Some [Publish 8, Publish 7]" 7
        "[Publish 8, Publish 7]" "publish 7 initial_loop"]
    by (auto simp: symbols_emit_def emitPublication_def publish_def initial_loop_def fun_eq_iff)
  with m show ?thesis by simp
qed

end
